theory Spec2Isabelle
  imports Complex_Main
begin

section \<open>Python strings\<close>

text \<open>
  A Python \<open>str\<close> is modelled as an Isabelle \<open>string\<close>, a list of characters with codes
  below 256. The functions below are the string operations that \<open>yt_transcript2.py\<close>
  calls, named after the Python method.
\<close>

definition is_space :: "char \<Rightarrow> bool" where
  \<comment> \<open>the characters below 256 that \<open>str.strip()\<close> removes: tab, LF, VT, FF, CR, FS, GS,
      RS, US, space, NEL and the no-break space\<close>
  "is_space c = (c = CHR 0x09 \<or> c = CHR 0x0A \<or> c = CHR 0x0B \<or> c = CHR 0x0C \<or> c = CHR 0x0D
     \<or> c = CHR 0x1C \<or> c = CHR 0x1D \<or> c = CHR 0x1E \<or> c = CHR 0x1F \<or> c = CHR 0x20
     \<or> c = CHR 0x85 \<or> c = CHR 0xA0)"

definition strip :: "string \<Rightarrow> string" where
  \<comment> \<open>\<open>s.strip()\<close>\<close>
  "strip s = rev (dropWhile is_space (rev (dropWhile is_space s)))"

fun split_on :: "char \<Rightarrow> string \<Rightarrow> string list" where
  \<comment> \<open>\<open>s.split(sep)\<close> for a separator of one character: never the empty list\<close>
  "split_on sep [] = [[]]"
| "split_on sep (c # cs) =
     (if c = sep then [] # split_on sep cs
      else (case split_on sep cs of
              [] \<Rightarrow> [[c]]
            | w # ws \<Rightarrow> (c # w) # ws))"

fun join :: "string \<Rightarrow> string list \<Rightarrow> string" where
  \<comment> \<open>\<open>sep.join(xs)\<close>\<close>
  "join sep [] = []"
| "join sep [x] = x"
| "join sep (x # y # ys) = x @ sep @ join sep (y # ys)"

fun startswith :: "string \<Rightarrow> string \<Rightarrow> bool" where
  \<comment> \<open>\<open>s.startswith(p)\<close>\<close>
  "startswith s [] = True"
| "startswith [] (p # ps) = False"
| "startswith (c # cs) (p # ps) = (c = p \<and> startswith cs ps)"

fun str_in :: "string \<Rightarrow> string \<Rightarrow> bool" where
  \<comment> \<open>\<open>needle in hay\<close>: \<open>needle\<close> occurs in \<open>hay\<close> as a contiguous substring\<close>
  "str_in needle [] = (needle = [])"
| "str_in needle (h # hs) = (startswith (h # hs) needle \<or> str_in needle hs)"

definition replace_char :: "char \<Rightarrow> char \<Rightarrow> string \<Rightarrow> string" where
  \<comment> \<open>\<open>s.replace(a, b)\<close> for strings \<open>a\<close>, \<open>b\<close> of one character\<close>
  "replace_char a b s = map (\<lambda>c. if c = a then b else c) s"

fun collapse_spaces :: "string \<Rightarrow> string" where
  \<comment> \<open>\<open>re.sub(r' +', ' ', s)\<close>: every maximal run of spaces becomes one space\<close>
  "collapse_spaces [] = []"
| "collapse_spaces [c] = [c]"
| "collapse_spaces (c # d # cs) =
     (if c = CHR '' '' \<and> d = CHR '' '' then collapse_spaces (d # cs)
      else c # collapse_spaces (d # cs))"

section \<open>Python numbers and their text\<close>

text \<open>
  Python's \<open>float\<close> values are modelled by exact rationals: the timestamps of the
  program are whole milliseconds, and the arithmetic of the model is the arithmetic of
  the source carried out without rounding error. \<open>int\<close> is \<open>int\<close>.
\<close>

datatype error =
    ValueError string
  | IndexError
  | AttributeError
  | OverflowError
  | MalformedTimestamp

definition decimal_digits :: string where
  "decimal_digits = ''0123456789''"

fun position :: "char \<Rightarrow> string \<Rightarrow> nat option" where
  \<comment> \<open>the index of the first occurrence of a character\<close>
  "position c [] = None"
| "position c (d # ds) = (if c = d then Some 0 else map_option Suc (position c ds))"

definition digit_char :: "nat \<Rightarrow> char" where
  \<comment> \<open>the character of a digit below ten\<close>
  "digit_char d = decimal_digits ! d"

definition digit_val :: "char \<Rightarrow> nat option" where
  \<comment> \<open>the value of a decimal digit, \<open>None\<close> for another character\<close>
  "digit_val c = position c decimal_digits"

fun str_nat :: "nat \<Rightarrow> string" where
  \<comment> \<open>\<open>str(n)\<close> for \<open>n \<ge> 0\<close>: the decimal digits, most significant first\<close>
  "str_nat n = (if n < 10 then [digit_char n] else str_nat (n div 10) @ [digit_char (n mod 10)])"

declare str_nat.simps [simp del]

definition zfill :: "nat \<Rightarrow> string \<Rightarrow> string" where
  \<comment> \<open>zeros on the left up to the width; a longer string is left as it is\<close>
  "zfill w s = replicate (w - length s) (CHR ''0'') @ s"

definition format_02d :: "int \<Rightarrow> string" where
  \<comment> \<open>\<open>f"{n:02d}"\<close>: the sign, when there is one, counts in the width\<close>
  "format_02d n =
     (if n < 0 then CHR ''-'' # zfill 1 (str_nat (nat (- n))) else zfill 2 (str_nat (nat n)))"

definition round_half_even :: "rat \<Rightarrow> int" where
  \<comment> \<open>the rounding of Python's number formatting: to nearest, ties to even\<close>
  "round_half_even x =
     (let f = \<lfloor>x\<rfloor>; d = x - of_int f
      in if d < 1 / 2 then f else if 1 / 2 < d then f + 1 else if even f then f else f + 1)"

definition format_06_3f :: "rat \<Rightarrow> string" where
  \<comment> \<open>\<open>f"{x:06.3f}"\<close>: three digits after the point, zeros on the left up to six characters\<close>
  "format_06_3f x =
     (let m = round_half_even (\<bar>x\<bar> * 1000);
          body = str_nat (nat (m div 1000)) @ ''.'' @ zfill 3 (str_nat (nat (m mod 1000)))
      in if x < 0 then CHR ''-'' # zfill 5 body else zfill 6 body)"

fun digits_val :: "nat \<Rightarrow> string \<Rightarrow> nat option" where
  \<comment> \<open>the number a string of decimal digits denotes, continuing from \<open>acc\<close>\<close>
  "digits_val acc [] = Some acc"
| "digits_val acc (c # cs) =
     (case digit_val c of None \<Rightarrow> None | Some d \<Rightarrow> digits_val (10 * acc + d) cs)"

definition unsigned_val :: "string \<Rightarrow> rat option" where
  \<comment> \<open>digits with at most one decimal point and at least one digit\<close>
  "unsigned_val s =
     (let ip = takeWhile (\<lambda>c. c \<noteq> CHR ''.'') s;
          rest = dropWhile (\<lambda>c. c \<noteq> CHR ''.'') s;
          fp = (if rest = [] then [] else tl rest)
      in if ip = [] \<and> fp = [] then None
         else (case (digits_val 0 ip, digits_val 0 fp) of
                 (Some i, Some f) \<Rightarrow> Some (of_nat i + of_nat f / 10 ^ length fp)
               | _ \<Rightarrow> None))"

definition py_float :: "string \<Rightarrow> error + rat" where
  \<comment> \<open>\<open>float(s)\<close> on decimal literals: surrounding whitespace, an optional sign, digits with
      an optional decimal point. Python also reads exponents, underscores, \<open>inf\<close> and
      \<open>nan\<close>; the timestamps of this program never have them, and the model refuses them.\<close>
  "py_float s =
     (let t = strip s;
          r = (case t of
                 [] \<Rightarrow> None
               | c # cs \<Rightarrow>
                   if c = CHR ''-'' then map_option uminus (unsigned_val cs)
                   else if c = CHR ''+'' then unsigned_val cs
                   else unsigned_val t)
      in case r of
           None \<Rightarrow> Inl (ValueError (''could not convert string to float: '' @ s))
         | Some x \<Rightarrow> Inr x)"

section \<open>Timestamp utilities\<close>

definition timestamp_to_seconds :: "string \<Rightarrow> error + rat" where
  \<comment> \<open>\<open>VideoExtractor._timestamp_to_seconds\<close>\<close>
  "timestamp_to_seconds timestamp =
     (let time_parts = split_on CHR '':'' timestamp
      in case py_float (time_parts ! 0) of
           Inl e \<Rightarrow> Inl e
         | Inr hours \<Rightarrow>
             if length time_parts < 2 then Inl IndexError
             else (case py_float (time_parts ! 1) of
                     Inl e \<Rightarrow> Inl e
                   | Inr minutes \<Rightarrow>
                       if length time_parts < 3 then Inl IndexError
                       else (case py_float (time_parts ! 2) of
                               Inl e \<Rightarrow> Inl e
                             | Inr seconds \<Rightarrow> Inr (hours * 3600 + minutes * 60 + seconds))))"

definition py_floordiv :: "rat \<Rightarrow> rat \<Rightarrow> rat" where
  \<comment> \<open>\<open>x // m\<close> on floats, for \<open>m > 0\<close>\<close>
  "py_floordiv x m = of_int \<lfloor>x / m\<rfloor>"

definition py_mod :: "rat \<Rightarrow> rat \<Rightarrow> rat" where
  \<comment> \<open>\<open>x % m\<close> on floats, for \<open>m > 0\<close>: the result is in \<open>[0, m)\<close>\<close>
  "py_mod x m = x - m * of_int \<lfloor>x / m\<rfloor>"

definition py_int :: "rat \<Rightarrow> int" where
  \<comment> \<open>\<open>int(x)\<close>: truncation towards zero\<close>
  "py_int x = (if 0 \<le> x then \<lfloor>x\<rfloor> else \<lceil>x\<rceil>)"

definition seconds_to_timestamp :: "rat \<Rightarrow> string" where
  \<comment> \<open>\<open>VideoExtractor._seconds_to_timestamp\<close>\<close>
  "seconds_to_timestamp total_seconds =
     (let hours = py_int (py_floordiv total_seconds 3600);
          remaining = py_mod total_seconds 3600;
          minutes = py_int (py_floordiv remaining 60);
          seconds = py_mod remaining 60
      in format_02d hours @ '':'' @ format_02d minutes @ '':'' @ format_06_3f seconds)"

section \<open>Caption track selector\<close>

text \<open>
  A caption track of yt-dlp is a dictionary; \<open>get_captions_by_priority\<close> reads the keys
  \<open>name\<close>, \<open>protocol\<close> and \<open>ext\<close>, each of which may be absent (\<open>None\<close> here). The
  \<open>subtitles\<close> and \<open>automatic_captions\<close> entries of the video information map a language
  to its list of tracks; they are association lists, in the dictionary's iteration order,
  because the search for an \<open>en-\<close> variant follows that order.
\<close>

record track =
  name :: "string option"
  protocol :: "string option"
  ext :: "string option"
  url :: string

type_synonym track_catalog = "(string \<times> track list) list"

record info =
  subtitles :: "track_catalog option"
  automatic_captions :: "track_catalog option"

definition subtitle_priorities :: "string list" where
  "subtitle_priorities = [''en-US'', ''en-CA'', ''en'']"

definition auto_caption_priorities :: "string list" where
  "auto_caption_priorities = [''en-orig'', ''en-US'', ''en-CA'', ''en'']"

definition format_priorities :: "string list" where
  "format_priorities = [''vtt'', ''srt'', ''ttml'']"

fun first_language :: "string list \<Rightarrow> track_catalog \<Rightarrow> track list option" where
  \<comment> \<open>\<open>for lang in priorities: if lang in d: caption_track = d[lang]; break\<close>\<close>
  "first_language [] d = None"
| "first_language (lang # langs) d =
     (case map_of d lang of
        Some tracks \<Rightarrow> Some tracks
      | None \<Rightarrow> first_language langs d)"

definition truthy_catalog :: "track_catalog option \<Rightarrow> bool" where
  \<comment> \<open>\<open>if info.get(key)\<close>: the key is there and the dictionary is not empty\<close>
  "truthy_catalog d = (case d of None \<Rightarrow> False | Some [] \<Rightarrow> False | Some (x # xs) \<Rightarrow> True)"

definition truthy_tracks :: "track list option \<Rightarrow> bool" where
  \<comment> \<open>the truth value of \<open>caption_track\<close>: neither \<open>None\<close> nor an empty list\<close>
  "truthy_tracks t = (case t of None \<Rightarrow> False | Some [] \<Rightarrow> False | Some (x # xs) \<Rightarrow> True)"

definition select_caption_track :: "info \<Rightarrow> track list option" where
  \<comment> \<open>lines 81 to 104 of \<open>get_captions_by_priority\<close>: the value of \<open>caption_track\<close>\<close>
  "select_caption_track i =
     (let caption_track =
            (if truthy_catalog (subtitles i) then
               (case first_language subtitle_priorities (the (subtitles i)) of
                  Some tracks \<Rightarrow> Some tracks
                | None \<Rightarrow>
                    (case find (\<lambda>lang. startswith lang ''en-'') (map fst (the (subtitles i))) of
                       Some lang \<Rightarrow> map_of (the (subtitles i)) lang
                     | None \<Rightarrow> None))
             else None)
      in if \<not> truthy_tracks caption_track then
           (if truthy_catalog (automatic_captions i) then
              (case first_language auto_caption_priorities (the (automatic_captions i)) of
                 Some tracks \<Rightarrow> Some tracks
               | None \<Rightarrow> caption_track)
            else caption_track)
         else caption_track)"

definition usable :: "track \<Rightarrow> bool" where
  \<comment> \<open>the tracks that the format loop does not skip\<close>
  "usable t = (\<not> (name t = None \<or> protocol t = Some ''m3u8_native''))"

fun first_format :: "string list \<Rightarrow> track list \<Rightarrow> track option" where
  \<comment> \<open>the two nested loops over \<open>format_priorities\<close> and \<open>caption_track\<close>\<close>
  "first_format [] tracks = None"
| "first_format (fmt # fmts) tracks =
     (case find (\<lambda>t. usable t \<and> ext t = Some fmt) tracks of
        Some t \<Rightarrow> Some t
      | None \<Rightarrow> first_format fmts tracks)"

definition get_captions_by_priority :: "info \<Rightarrow> track option" where
  \<comment> \<open>\<open>VideoExtractor.get_captions_by_priority\<close>: \<open>None\<close> is Python's \<open>None\<close>\<close>
  "get_captions_by_priority i =
     (let caption_track = select_caption_track i
      in if \<not> truthy_tracks caption_track then None
         else first_format format_priorities (the caption_track))"

section \<open>Cues\<close>

text \<open>
  Modelled from the spec: the cue and timestamp types come from the webvtt library,
  which is not part of the repository. The spec's data model has
  \<open>Cue = {start: Timestamp, end: Timestamp, text: string}\<close> and a Timestamp that is
  "representable as H:M:S.mmm or as a real-valued number of seconds" with
  whole-millisecond precision. A timestamp is held here as its number of milliseconds;
  \<open>in_seconds\<close> and \<open>milliseconds\<close> are the two attributes \<open>_ts_to_secs\<close> reads, and
  \<open>timestamp_str\<close> and \<open>timestamp_from_string\<close> are the H:M:S.mmm view that the
  \<open>start\<close> and \<open>end\<close> properties of a cue get and set. The text of a cue is the
  string that \<open>cue.text\<close> reads and writes; the field is \<open>text'\<close> because \<open>text\<close> is
  a keyword of Isabelle. The merger changes the cues it is given in place; every cue
  occurs once in its input, so the model passes the changed cues along as values.
\<close>

type_synonym timestamp = nat

definition in_seconds :: "timestamp \<Rightarrow> nat" where
  \<comment> \<open>Modelled from the spec: the whole seconds of a timestamp, \<open>timestamp.in_seconds()\<close>\<close>
  "in_seconds t = t div 1000"

definition milliseconds :: "timestamp \<Rightarrow> nat" where
  \<comment> \<open>Modelled from the spec: the milliseconds after the whole seconds,
      \<open>timestamp.milliseconds\<close>\<close>
  "milliseconds t = t mod 1000"

definition timestamp_str :: "timestamp \<Rightarrow> string" where
  \<comment> \<open>Modelled from the spec: the timestamp written H:M:S.mmm, hours, minutes and seconds
      with two digits and the milliseconds with three\<close>
  "timestamp_str t =
     zfill 2 (str_nat (t div 3600000)) @ '':'' @ zfill 2 (str_nat (t mod 3600000 div 60000)) @ '':'' @
     zfill 2 (str_nat (t mod 60000 div 1000)) @ ''.'' @ zfill 3 (str_nat (t mod 1000))"

definition timestamp_from_string :: "string \<Rightarrow> error + timestamp" where
  \<comment> \<open>Modelled from the spec: the string is read with the parse of section 4.1; a string
      that does not denote a whole, non-negative number of milliseconds is refused\<close>
  "timestamp_from_string s =
     (case timestamp_to_seconds s of
        Inl e \<Rightarrow> Inl MalformedTimestamp
      | Inr x \<Rightarrow>
          if 0 \<le> x \<and> of_int \<lfloor>x * 1000\<rfloor> = x * 1000 then Inr (nat \<lfloor>x * 1000\<rfloor>)
          else Inl MalformedTimestamp)"

record cue =
  start_time :: timestamp
  end_time :: timestamp
  text' :: string

definition cue_start :: "cue \<Rightarrow> string" where
  \<comment> \<open>the property \<open>cue.start\<close>\<close>
  "cue_start c = timestamp_str (start_time c)"

definition cue_end :: "cue \<Rightarrow> string" where
  \<comment> \<open>the property \<open>cue.end\<close>\<close>
  "cue_end c = timestamp_str (end_time c)"

definition set_start :: "cue \<Rightarrow> string \<Rightarrow> error + cue" where
  \<comment> \<open>the assignment \<open>cue.start = s\<close>\<close>
  "set_start c s =
     (case timestamp_from_string s of Inl e \<Rightarrow> Inl e | Inr t \<Rightarrow> Inr (c\<lparr>start_time := t\<rparr>))"

definition set_end :: "cue \<Rightarrow> string \<Rightarrow> error + cue" where
  \<comment> \<open>the assignment \<open>cue.end = s\<close>\<close>
  "set_end c s =
     (case timestamp_from_string s of Inl e \<Rightarrow> Inl e | Inr t \<Rightarrow> Inr (c\<lparr>end_time := t\<rparr>))"

section \<open>Cue deduplication merger\<close>

definition ts_to_secs :: "timestamp \<Rightarrow> rat" where
  \<comment> \<open>\<open>VideoExtractor._ts_to_secs\<close>\<close>
  "ts_to_secs t = of_nat (in_seconds t) + of_nat (milliseconds t) / 1000"

definition short_duplicate :: "cue \<Rightarrow> cue \<Rightarrow> bool" where
  \<comment> \<open>the condition of lines 217 and 218, on the stripped \<open>subtitle\<close>\<close>
  "short_duplicate previous_subtitle subtitle =
     (ts_to_secs (start_time subtitle) - ts_to_secs (end_time subtitle) < 15 / 100
      \<and> str_in (text' subtitle) (text' previous_subtitle))"

definition advance :: "bool \<Rightarrow> cue \<Rightarrow> cue \<Rightarrow> error + (cue list \<times> cue)" where
  \<comment> \<open>lines 249 to 258: overlap correction, order correction, the \<open>yield\<close> and the new
      \<open>previous_subtitle\<close>. The result is the cues yielded in this iteration and the
      \<open>previous_subtitle\<close> of the next one.\<close>
  "advance singleword previous_subtitle subtitle =
     (case (if ts_to_secs (start_time subtitle) \<le> ts_to_secs (end_time previous_subtitle) then
              (let new_time = max (ts_to_secs (start_time subtitle) - 1 / 1000) 0
               in set_end previous_subtitle (seconds_to_timestamp new_time))
            else Inr previous_subtitle) of
        Inl e \<Rightarrow> Inl e
      | Inr previous_subtitle \<Rightarrow>
          (case (if ts_to_secs (start_time subtitle) \<ge> ts_to_secs (end_time subtitle) then
                   (case set_start subtitle (cue_end subtitle) of
                      Inl e \<Rightarrow> Inl e
                    | Inr swapped \<Rightarrow> set_end swapped (cue_start subtitle))
                 else Inr subtitle) of
             Inl e \<Rightarrow> Inl e
           | Inr subtitle \<Rightarrow>
               Inr (if \<not> singleword then [previous_subtitle] else [], subtitle)))"

definition dedupe_step :: "cue \<Rightarrow> cue \<Rightarrow> error + (cue list \<times> cue)" where
  \<comment> \<open>one iteration of the loop of \<open>dedupe_yt_captions\<close> after the first (lines 212 to
      258). \<open>split\<close> never returns the empty list (lemma \<open>split_on_nonempty\<close>) and
      \<open>title_text\<close> is not empty, so the indexing of the source does not raise.\<close>
  "dedupe_step previous_subtitle subtitle0 =
     (let subtitle = subtitle0\<lparr>text' := strip (text' subtitle0)\<rparr>
      in if length (text' subtitle) = 0 then Inr ([], previous_subtitle)
         else if short_duplicate previous_subtitle subtitle then
           (case set_end previous_subtitle (cue_end subtitle) of
              Inl e \<Rightarrow> Inl e
            | Inr previous_subtitle \<Rightarrow> Inr ([], previous_subtitle))
         else
           (let current_lines = split_on CHR 0x0A (text' subtitle);
                last_lines = split_on CHR 0x0A (text' previous_subtitle)
            in if hd current_lines = last last_lines then
                 (if length last_lines = 1 then
                    (if length (split_on CHR '' '' (hd last_lines)) < 2 \<and> length (hd last_lines) > 2 then
                       advance True previous_subtitle
                         (subtitle\<lparr>text' := hd current_lines @ '' '' @ join [CHR 0x0A] (tl current_lines)\<rparr>)
                     else
                       advance False previous_subtitle
                         (subtitle\<lparr>text' := join [CHR 0x0A] (tl current_lines)\<rparr>))
                  else
                    advance False previous_subtitle
                      (subtitle\<lparr>text' := join [CHR 0x0A] (tl current_lines)\<rparr>))
               else if length (split_on CHR '' '' (text' subtitle)) \<le> 2 then
                 (case set_end previous_subtitle (cue_end subtitle) of
                    Inl e \<Rightarrow> Inl e
                  | Inr previous_subtitle \<Rightarrow>
                      (let title_text = text' subtitle;
                           title_text = (if hd title_text \<noteq> CHR '' '' then '' '' @ title_text else title_text)
                       in Inr ([], previous_subtitle\<lparr>text' := text' previous_subtitle @ title_text\<rparr>)))
               else advance False previous_subtitle subtitle))"

fun dedupe_loop :: "cue \<Rightarrow> cue list \<Rightarrow> error + cue list" where
  \<comment> \<open>the loop once \<open>previous_subtitle\<close> is set, and the final \<open>yield\<close>\<close>
  "dedupe_loop previous_subtitle [] = Inr [previous_subtitle]"
| "dedupe_loop previous_subtitle (subtitle # subs) =
     (case dedupe_step previous_subtitle subtitle of
        Inl e \<Rightarrow> Inl e
      | Inr (yielded, previous_subtitle) \<Rightarrow>
          (case dedupe_loop previous_subtitle subs of
             Inl e \<Rightarrow> Inl e
           | Inr rest \<Rightarrow> Inr (yielded @ rest)))"

definition dedupe_yt_captions :: "cue list \<Rightarrow> error + cue option list" where
  \<comment> \<open>\<open>list(self.dedupe_yt_captions(subs_iter))\<close>. The first cue sets \<open>previous_subtitle\<close>;
      on an empty input the final \<open>yield\<close> gives the initial \<open>None\<close>.\<close>
  "dedupe_yt_captions subs_iter =
     (case subs_iter of
        [] \<Rightarrow> Inr [None]
      | subtitle # subs \<Rightarrow>
          (case dedupe_loop subtitle subs of
             Inl e \<Rightarrow> Inl e
           | Inr captions \<Rightarrow> Inr (map Some captions)))"

section \<open>Segmenter\<close>

text \<open>
  A segment is the dictionary that \<open>parse_captions\<close> builds; its keys \<open>start\<close>, \<open>end\<close> and
  \<open>text\<close> are the fields \<open>seg_start\<close>, \<open>seg_end\<close> and \<open>seg_text\<close>.
\<close>

record segment =
  seg_start :: string
  seg_end :: string
  start_sec :: rat
  end_sec :: rat
  separator :: string
  seg_text :: string

fun segments_loop :: "nat \<Rightarrow> segment list \<Rightarrow> cue option list \<Rightarrow> error + segment list" where
  \<comment> \<open>the loop of \<open>parse_captions\<close> over \<open>enumerate(captions)\<close>; reading \<open>cap.text\<close> of
      \<open>None\<close> raises AttributeError\<close>
  "segments_loop idx segments [] = Inr segments"
| "segments_loop idx segments (None # captions) = Inl AttributeError"
| "segments_loop idx segments (Some cap # captions) =
     (let text = strip (replace_char (CHR 0x0A) (CHR '' '') (text' cap));
          start_ts = cue_start cap;
          end_ts = cue_end cap
      in case timestamp_to_seconds start_ts of
           Inl e \<Rightarrow> Inl e
         | Inr start_sec' \<Rightarrow>
             (case timestamp_to_seconds end_ts of
                Inl e \<Rightarrow> Inl e
              | Inr end_sec' \<Rightarrow>
                  (let sep = (if idx = 0 then []
                              else (let prev_end = end_sec (last segments);
                                        gap = start_sec' - prev_end
                                    in if gap > 3 then [CHR 0x0A, CHR 0x0A]
                                       else if gap > 1 then [CHR 0x0A]
                                       else '' ''))
                   in segments_loop (idx + 1)
                        (segments @ [\<lparr>seg_start = start_ts, seg_end = end_ts,
                                       start_sec = start_sec', end_sec = end_sec',
                                       separator = sep, seg_text = collapse_spaces text\<rparr>])
                        captions)))"

definition parse_captions ::
  "(string \<Rightarrow> error + cue list) \<Rightarrow> string \<Rightarrow> string \<Rightarrow> error + segment list" where
  \<comment> \<open>\<open>VideoExtractor.parse_captions\<close>. The first argument is \<open>webvtt.from_string\<close>, the
      library's parser of the raw text into cues; its exception is raised again. The
      messages printed to stderr are left out.\<close>
  "parse_captions from_string ext' content =
     (if ext' \<noteq> ''vtt'' then Inl (ValueError (''Unsupported caption format: '' @ ext'))
      else (case from_string content of
              Inl e \<Rightarrow> Inl e
            | Inr raw_captions \<Rightarrow>
                (case dedupe_yt_captions raw_captions of
                   Inl e \<Rightarrow> Inl e
                 | Inr captions \<Rightarrow> segments_loop 0 [] captions)))"

section \<open>Downstream projection\<close>





section \<open>Auxiliary notions for the proofs\<close>

definition is_digit :: "char \<Rightarrow> bool" where
  "is_digit c = (digit_val c \<noteq> None)"

definition correct_overlap :: "cue \<Rightarrow> cue \<Rightarrow> cue" where
  \<comment> \<open>what the overlap correction of lines 249 to 251 leaves in \<open>previous_subtitle\<close>\<close>
  "correct_overlap previous_subtitle subtitle =
     (if start_time subtitle \<le> end_time previous_subtitle
      then previous_subtitle\<lparr>end_time := start_time subtitle - 1\<rparr> else previous_subtitle)"

definition correct_order :: "cue \<Rightarrow> cue" where
  \<comment> \<open>what the order correction of lines 252 and 253 leaves in \<open>subtitle\<close>\<close>
  "correct_order subtitle =
     (if end_time subtitle \<le> start_time subtitle
      then subtitle\<lparr>start_time := end_time subtitle, end_time := start_time subtitle\<rparr>
      else subtitle)"




fun non_overlapping :: "cue list \<Rightarrow> bool" where
  \<comment> \<open>every cue ends no later than the next one starts\<close>
  "non_overlapping [] = True"
| "non_overlapping [a] = True"
| "non_overlapping (a # b # cs) =
     (ts_to_secs (end_time a) \<le> ts_to_secs (start_time b) \<and> non_overlapping (b # cs))"

definition well_formed :: "cue \<Rightarrow> bool" where
  \<comment> \<open>the cue starts before it ends\<close>
  "well_formed c = (start_time c < end_time c)"

definition visible :: "string \<Rightarrow> bool" where
  \<comment> \<open>the text has a character that is not whitespace\<close>
  "visible s = (\<exists>c\<in>set s. \<not> is_space c)"

definition collapsed_text :: "string \<Rightarrow> string" where
  \<comment> \<open>the text that \<open>parse_captions\<close> gives the segment of a cue\<close>
  "collapsed_text s = collapse_spaces (strip (replace_char (CHR 0x0A) (CHR '' '') s))"



section \<open>Decimal text: rendering and reading\<close>

lemma below_ten:
  assumes "d < (10::nat)"
  shows "d = 0 \<or> d = 1 \<or> d = 2 \<or> d = 3 \<or> d = 4 \<or> d = 5 \<or> d = 6 \<or> d = 7 \<or> d = 8 \<or> d = 9"
  using assms by arith

lemma digit_val_digit_char: "d < 10 \<Longrightarrow> digit_val (digit_char d) = Some d"
  by (drule below_ten) (auto simp: digit_val_def digit_char_def decimal_digits_def)

lemma position_Some_mem: "position c ds = Some i \<Longrightarrow> c \<in> set ds"
  by (induction ds arbitrary: i) (auto split: if_splits)

lemma is_digit_mem: "is_digit c \<Longrightarrow> c \<in> set decimal_digits"
  by (auto simp: is_digit_def digit_val_def dest: position_Some_mem)

lemma is_digit_zero: "is_digit (CHR ''0'')" and digit_val_zero: "digit_val (CHR ''0'') = Some 0"
  by (simp_all add: is_digit_def digit_val_def decimal_digits_def)

lemma is_digit_digit_char: "d < 10 \<Longrightarrow> is_digit (digit_char d)"
  by (simp add: is_digit_def digit_val_digit_char)

lemma is_digit_not_sep:
  "is_digit c \<Longrightarrow> c \<noteq> CHR '':'' \<and> c \<noteq> CHR ''.'' \<and> \<not> is_space c \<and> c \<noteq> CHR ''-'' \<and> c \<noteq> CHR ''+''"
  by (drule is_digit_mem) (auto simp: decimal_digits_def is_space_def)

lemma str_nat_digits: "list_all is_digit (str_nat n)"
proof (induction n rule: str_nat.induct)
  case (1 n)
  have "is_digit (digit_char (n mod 10))" by (rule is_digit_digit_char) simp
  moreover have "n < 10 \<Longrightarrow> is_digit (digit_char n)" by (rule is_digit_digit_char)
  ultimately show ?case using 1 by (subst str_nat.simps) simp
qed

lemma str_nat_nonempty: "str_nat n \<noteq> []"
  by (subst str_nat.simps) simp

lemma digits_val_append:
  "digits_val acc (xs @ ys) = (case digits_val acc xs of None \<Rightarrow> None | Some a \<Rightarrow> digits_val a ys)"
  by (induction xs arbitrary: acc) (auto split: option.splits)

lemma digits_val_str_nat: "digits_val 0 (str_nat n) = Some n"
proof (induction n rule: str_nat.induct)
  case (1 n)
  show ?case
  proof (cases "n < 10")
    case True
    then show ?thesis by (subst str_nat.simps) (simp add: digit_val_digit_char)
  next
    case False
    then have "digits_val 0 (str_nat (n div 10)) = Some (n div 10)" using 1 by simp
    then show ?thesis using False
      by (subst str_nat.simps) (simp add: digits_val_append digit_val_digit_char)
  qed
qed

lemma digits_val_zeros: "digits_val 0 (replicate k (CHR ''0'') @ s) = digits_val 0 s"
  by (induction k) (simp_all add: digit_val_zero)

lemma digits_val_zfill: "digits_val 0 (zfill w (str_nat n)) = Some n"
  by (simp add: zfill_def digits_val_zeros digits_val_str_nat)

lemma zeros_digits: "list_all is_digit (replicate k (CHR ''0''))"
  by (induction k) (simp_all add: is_digit_zero)

lemma zfill_digits: "list_all is_digit (zfill w (str_nat n))"
  by (simp add: zfill_def str_nat_digits zeros_digits)

lemma zfill_nonempty: "zfill w (str_nat n) \<noteq> []"
  by (simp add: zfill_def str_nat_nonempty)

lemma length_str_nat: "n < 10 ^ Suc k \<Longrightarrow> length (str_nat n) \<le> Suc k"
proof (induction k arbitrary: n)
  case 0
  then show ?case by (subst str_nat.simps) simp
next
  case (Suc k)
  show ?case
  proof (cases "n < 10")
    case True
    then show ?thesis by (subst str_nat.simps) simp
  next
    case False
    have "n div 10 < 10 ^ Suc k" using Suc.prems by (simp add: less_mult_imp_div_less)
    then have "length (str_nat (n div 10)) \<le> Suc k" by (rule Suc.IH)
    then show ?thesis using False by (subst str_nat.simps) simp
  qed
qed

lemma length_zfill: "length s \<le> w \<Longrightarrow> length (zfill w s) = w"
  by (simp add: zfill_def)

lemma length_zfill3: "n < 1000 \<Longrightarrow> length (zfill 3 (str_nat n)) = 3"
  using length_str_nat [of n 2] by (simp add: length_zfill)

lemma strip_id:
  assumes "s \<noteq> []" "\<not> is_space (hd s)" "\<not> is_space (last s)"
  shows "strip s = s"
proof -
  from assms obtain c cs where s: "s = c # cs" by (cases s) auto
  then have 1: "dropWhile is_space s = s" using assms by simp
  have "rev s = last s # rev (butlast s)"
    using assms(1) by (metis append_butlast_last_id rev.simps(2) rev_append rev_rev_ident append_Cons append_Nil rev_singleton_conv)
  then obtain t where t: "rev s = last s # t" by blast
  have 2: "dropWhile is_space (rev s) = rev s"
    unfolding t using assms(3) by simp
  show ?thesis by (simp add: strip_def 1 2)
qed

lemma split_on_no_sep: "sep \<notin> set s \<Longrightarrow> split_on sep s = [s]"
  by (induction s) auto

lemma split_on_append:
  "sep \<notin> set a \<Longrightarrow> split_on sep (a @ sep # b) = a # split_on sep b"
  by (induction a) (auto split: list.splits)

lemma split_on_three:
  "sep \<notin> set a \<Longrightarrow> sep \<notin> set b \<Longrightarrow> sep \<notin> set c \<Longrightarrow>
   split_on sep (a @ sep # b @ sep # c) = [a, b, c]"
  by (simp add: split_on_append split_on_no_sep)

lemma unsigned_val_digits:
  assumes "list_all is_digit ip" "list_all is_digit fp" "ip \<noteq> []"
    and "digits_val 0 ip = Some i" "digits_val 0 fp = Some f"
  shows "unsigned_val (ip @ CHR ''.'' # fp) = Some (of_nat i + of_nat f / 10 ^ length fp)"
proof -
  have nd: "\<forall>c\<in>set ip. c \<noteq> CHR ''.''"
    using assms(1) is_digit_not_sep by (auto simp: list_all_iff)
  have 1: "takeWhile (\<lambda>c. c \<noteq> CHR ''.'') (ip @ CHR ''.'' # fp) = ip"
    using nd by (simp add: takeWhile_append2)
  have 2: "dropWhile (\<lambda>c. c \<noteq> CHR ''.'') (ip @ CHR ''.'' # fp) = CHR ''.'' # fp"
    using nd by (simp add: dropWhile_append2)
  show ?thesis
    by (simp add: unsigned_val_def 1 2 assms)
qed

lemma unsigned_val_int_digits:
  assumes "list_all is_digit ip" "ip \<noteq> []" "digits_val 0 ip = Some i"
  shows "unsigned_val ip = Some (of_nat i)"
proof -
  have nd: "\<forall>c\<in>set ip. c \<noteq> CHR ''.''"
    using assms(1) is_digit_not_sep by (auto simp: list_all_iff)
  have 1: "takeWhile (\<lambda>c. c \<noteq> CHR ''.'') ip = ip"
    using nd by (simp add: takeWhile_eq_all_conv)
  have 2: "dropWhile (\<lambda>c. c \<noteq> CHR ''.'') ip = []"
    using nd by simp
  show ?thesis
    by (simp add: unsigned_val_def 1 2 assms)
qed

lemma py_float_unsigned:
  assumes "s \<noteq> []" "is_digit (hd s)" "is_digit (last s)" "unsigned_val s = Some x"
  shows "py_float s = Inr x"
proof -
  have "strip s = s"
    using assms is_digit_not_sep by (intro strip_id) auto
  moreover obtain c cs where "s = c # cs" using assms(1) by (cases s) auto
  moreover have "hd s \<noteq> CHR ''-''" "hd s \<noteq> CHR ''+''" using assms(2) is_digit_not_sep by auto
  ultimately show ?thesis using assms(4)
    by (simp add: py_float_def)
qed

lemma py_float_zfill: "py_float (zfill w (str_nat n)) = Inr (of_nat n)"
proof -
  let ?s = "zfill w (str_nat n)"
  have d: "list_all is_digit ?s" by (rule zfill_digits)
  have ne: "?s \<noteq> []" by (rule zfill_nonempty)
  have "is_digit (hd ?s)" "is_digit (last ?s)" using d ne by (auto simp: list_all_iff)
  moreover have "unsigned_val ?s = Some (of_nat n)"
    using d ne by (rule unsigned_val_int_digits) (rule digits_val_zfill)
  ultimately show ?thesis using ne by (intro py_float_unsigned)
qed

lemma round_half_even_of_int: "round_half_even (of_int n) = n"
  by (simp add: round_half_even_def)

lemma format_06_3f_ms:
  "format_06_3f (of_nat r / 1000) =
     zfill 6 (str_nat (r div 1000) @ ''.'' @ zfill 3 (str_nat (r mod 1000)))"
proof -
  have "\<bar>(of_nat r :: rat) / 1000\<bar> * 1000 = of_int (int r)" by simp
  then have "round_half_even (\<bar>(of_nat r :: rat) / 1000\<bar> * 1000) = int r"
    using round_half_even_of_int by metis
  moreover have "nat (int r div 1000) = r div 1000" "nat (int r mod 1000) = r mod 1000"
    by (simp_all add: nat_div_distrib nat_mod_distrib)
  ultimately show ?thesis
    by (simp add: format_06_3f_def Let_def)
qed

lemma hd_append_all: "list_all P xs \<Longrightarrow> xs \<noteq> [] \<Longrightarrow> P (hd (xs @ ys))"
  by (cases xs) auto

lemma py_float_seconds:
  "py_float (zfill w (str_nat a @ ''.'' @ zfill 3 (str_nat b))) =
     (if b < 1000 then Inr (of_nat a + of_nat b / 1000) else py_float (zfill w (str_nat a @ ''.'' @ zfill 3 (str_nat b))))"
proof (cases "b < 1000")
  case True
  let ?ip = "replicate (w - length (str_nat a @ ''.'' @ zfill 3 (str_nat b))) (CHR ''0'') @ str_nat a"
  let ?fp = "zfill 3 (str_nat b)"
  have s: "zfill w (str_nat a @ ''.'' @ ?fp) = ?ip @ CHR ''.'' # ?fp"
    by (simp add: zfill_def)
  have dip: "list_all is_digit ?ip" by (simp add: zeros_digits str_nat_digits)
  have dfp: "list_all is_digit ?fp" by (rule zfill_digits)
  have neip: "?ip \<noteq> []" by (simp add: str_nat_nonempty)
  have nefp: "?fp \<noteq> []" by (rule zfill_nonempty)
  have vip: "digits_val 0 ?ip = Some a" by (simp add: digits_val_zeros digits_val_str_nat)
  have vfp: "digits_val 0 ?fp = Some b" by (rule digits_val_zfill)
  have u: "unsigned_val (?ip @ CHR ''.'' # ?fp) = Some (of_nat a + of_nat b / 10 ^ length ?fp)"
    using dip dfp neip vip vfp by (rule unsigned_val_digits)
  have len: "length ?fp = 3" using True by (rule length_zfill3)
  have hd: "is_digit (hd (?ip @ CHR ''.'' # ?fp))"
    using dip neip by (rule hd_append_all)
  have lst: "is_digit (last (?ip @ CHR ''.'' # ?fp))"
    using dfp nefp by (auto simp: list_all_iff)
  have "py_float (?ip @ CHR ''.'' # ?fp) = Inr (of_nat a + of_nat b / 10 ^ length ?fp)"
    using _ hd lst u by (rule py_float_unsigned) simp
  then show ?thesis using True by (simp only: s len) simp
next
  case False
  then show ?thesis by simp
qed

lemma floordiv_ms:
  "0 < d \<Longrightarrow> py_int (py_floordiv (of_nat k / 1000) (of_nat d)) = int (k div (1000 * d))"
proof -
  have "(of_nat k :: rat) / 1000 / of_nat d = of_nat k / of_nat (1000 * d)" by simp
  then have "\<lfloor>(of_nat k :: rat) / 1000 / of_nat d\<rfloor> = int (k div (1000 * d))"
    by (simp only: floor_divide_of_nat_eq)
  then show ?thesis by (simp add: py_floordiv_def py_int_def)
qed

lemma mod_ms:
  "0 < d \<Longrightarrow> py_mod (of_nat k / 1000) (of_nat d) = of_nat (k mod (1000 * d)) / 1000"
proof -
  assume d: "0 < d"
  have "(of_nat k :: rat) / 1000 / of_nat d = of_nat k / of_nat (1000 * d)" by simp
  then have f: "\<lfloor>(of_nat k :: rat) / 1000 / of_nat d\<rfloor> = int (k div (1000 * d))"
    by (simp only: floor_divide_of_nat_eq)
  have "k = (1000 * d) * (k div (1000 * d)) + k mod (1000 * d)" by simp
  then have "(of_nat k :: rat) = of_nat ((1000 * d) * (k div (1000 * d)) + k mod (1000 * d))"
    by simp
  then have "(of_nat k :: rat) = 1000 * of_nat d * of_nat (k div (1000 * d)) + of_nat (k mod (1000 * d))"
    by (simp only: of_nat_add of_nat_mult of_nat_numeral)
  then have "(of_nat k :: rat) / 1000 - of_nat d * of_nat (k div (1000 * d)) = of_nat (k mod (1000 * d)) / 1000"
    by (simp add: field_simps)
  moreover have "rat_of_int \<lfloor>(of_nat k :: rat) / 1000 / of_nat d\<rfloor> = of_nat (k div (1000 * d))"
    unfolding f by simp
  ultimately show ?thesis unfolding py_mod_def by simp
qed

section \<open>The timestamp formatter on whole milliseconds\<close>

lemma seconds_to_timestamp_ms:
  "seconds_to_timestamp (of_nat k / 1000) =
     zfill 2 (str_nat (k div 3600000)) @ '':'' @
     zfill 2 (str_nat (k mod 3600000 div 60000)) @ '':'' @
     zfill 6 (str_nat (k mod 3600000 mod 60000 div 1000) @ ''.'' @
              zfill 3 (str_nat (k mod 3600000 mod 60000 mod 1000)))"
proof -
  have h: "py_int (py_floordiv (of_nat k / 1000) 3600) = int (k div 3600000)"
    using floordiv_ms [of 3600 k] by simp
  have r: "py_mod (of_nat k / 1000) 3600 = of_nat (k mod 3600000) / 1000"
    using mod_ms [of 3600 k] by simp
  have m: "py_int (py_floordiv (of_nat (k mod 3600000) / 1000) 60) = int (k mod 3600000 div 60000)"
    using floordiv_ms [of 60 "k mod 3600000"] by simp
  have s: "py_mod (of_nat (k mod 3600000) / 1000) 60 = of_nat (k mod 3600000 mod 60000) / 1000"
    using mod_ms [of 60 "k mod 3600000"] by simp
  show ?thesis
    unfolding seconds_to_timestamp_def Let_def h r m s format_06_3f_ms
    by (simp add: format_02d_def)
qed

lemma no_colon_digits: "list_all is_digit s \<Longrightarrow> CHR '':'' \<notin> set s"
  using is_digit_not_sep by (auto simp: list_all_iff)

lemma timestamp_to_seconds_fields:
  assumes "c < 1000"
  shows "timestamp_to_seconds (zfill 2 (str_nat h) @ '':'' @ zfill 2 (str_nat m) @ '':'' @
           zfill 6 (str_nat a @ ''.'' @ zfill 3 (str_nat c))) =
         Inr (of_nat h * 3600 + of_nat m * 60 + (of_nat a + of_nat c / 1000))"
proof -
  let ?H = "zfill 2 (str_nat h)" and ?M = "zfill 2 (str_nat m)"
  let ?S = "zfill 6 (str_nat a @ ''.'' @ zfill 3 (str_nat c))"
  have nh: "CHR '':'' \<notin> set ?H" and nm: "CHR '':'' \<notin> set ?M"
    by (rule no_colon_digits, rule zfill_digits)+
  have "CHR '':'' \<notin> set (str_nat a)" "CHR '':'' \<notin> set (zfill 3 (str_nat c))"
    by (rule no_colon_digits, rule str_nat_digits, rule no_colon_digits, rule zfill_digits)
  then have ns: "CHR '':'' \<notin> set ?S"
    by (simp add: zfill_def)
  have sp: "split_on CHR '':'' (?H @ '':'' @ ?M @ '':'' @ ?S) = [?H, ?M, ?S]"
    using split_on_three [OF nh nm ns] by simp
  have fs: "py_float (zfill 6 (str_nat a @ CHR ''.'' # zfill 3 (str_nat c))) =
      Inr (of_nat a + of_nat c / 1000)"
    using assms py_float_seconds [of 6 a c] by simp
  show ?thesis
    unfolding timestamp_to_seconds_def sp Let_def
    by (simp add: py_float_zfill fs)
qed

lemma ms_decompose:
  "(of_nat (k div 3600000) :: rat) * 3600 + of_nat (k mod 3600000 div 60000) * 60 +
     (of_nat (k mod 3600000 mod 60000 div 1000) + of_nat (k mod 3600000 mod 60000 mod 1000) / 1000)
   = of_nat k / 1000"
proof -
  define r where "r = k mod 3600000 mod 60000"
  have 1: "k = 3600000 * (k div 3600000) + (60000 * (k mod 3600000 div 60000) + (1000 * (r div 1000) + r mod 1000))"
    unfolding r_def by simp
  have "(of_nat k :: rat) = of_nat (3600000 * (k div 3600000) + (60000 * (k mod 3600000 div 60000) + (1000 * (r div 1000) + r mod 1000)))"
    using 1 by simp
  then have "(of_nat k :: rat) = 3600000 * of_nat (k div 3600000) + (60000 * of_nat (k mod 3600000 div 60000) + (1000 * of_nat (r div 1000) + of_nat (r mod 1000)))"
    by (simp only: of_nat_add of_nat_mult of_nat_numeral)
  then show ?thesis unfolding r_def by (simp add: field_simps)
qed

lemma zfill_seconds:
  assumes "b < 1000"
  shows "zfill 6 (str_nat a @ ''.'' @ zfill 3 (str_nat b)) = zfill 2 (str_nat a) @ ''.'' @ zfill 3 (str_nat b)"
proof -
  have "length (zfill 3 (str_nat b)) = 3" using assms by (rule length_zfill3)
  then show ?thesis by (simp add: zfill_def)
qed

lemma timestamp_str_eq: "timestamp_str t = seconds_to_timestamp (of_nat t / 1000)"
proof -
  have 1: "t mod 3600000 mod 60000 = t mod 60000"
    by (simp add: mod_mod_cancel)
  have 2: "t mod 60000 mod 1000 = t mod 1000"
    by (simp add: mod_mod_cancel)
  have 3: "t mod 1000 < 1000" by simp
  show ?thesis
    unfolding seconds_to_timestamp_ms timestamp_str_def 1 2 zfill_seconds [OF 3] by simp
qed

lemma round_trip_ms:
  "timestamp_to_seconds (seconds_to_timestamp (of_nat k / 1000)) = Inr (of_nat k / 1000)"
proof -
  have "k mod 3600000 mod 60000 mod 1000 < 1000" by simp
  then show ?thesis
    unfolding seconds_to_timestamp_ms
    by (simp only: timestamp_to_seconds_fields ms_decompose)
qed




section \<open>Cues and their timestamps\<close>

lemma ts_to_secs_ms: "ts_to_secs t = of_nat t / 1000"
proof -
  have "t = 1000 * (t div 1000) + t mod 1000" by simp
  then have "(of_nat t :: rat) = of_nat (1000 * (t div 1000) + t mod 1000)" by simp
  then have "(of_nat t :: rat) = 1000 * of_nat (t div 1000) + of_nat (t mod 1000)"
    by (simp only: of_nat_add of_nat_mult of_nat_numeral)
  then show ?thesis by (simp add: ts_to_secs_def in_seconds_def milliseconds_def field_simps)
qed

lemma ts_to_secs_le: "ts_to_secs a \<le> ts_to_secs b \<longleftrightarrow> a \<le> b"
  by (simp add: ts_to_secs_ms)

lemma timestamp_from_string_seconds:
  "timestamp_from_string (seconds_to_timestamp (of_nat k / 1000)) = Inr k"
proof -
  have "(of_nat k :: rat) / 1000 * 1000 = of_int (int k)" by simp
  then have "\<lfloor>(of_nat k :: rat) / 1000 * 1000\<rfloor> = int k" by (simp only: floor_of_int)
  then show ?thesis by (simp add: timestamp_from_string_def round_trip_ms)
qed

lemma timestamp_from_string_str: "timestamp_from_string (timestamp_str t) = Inr t"
  by (simp only: timestamp_str_eq timestamp_from_string_seconds)

lemma set_end_cue_end: "set_end p (cue_end s) = Inr (p\<lparr>end_time := end_time s\<rparr>)"
  by (simp add: set_end_def cue_end_def timestamp_from_string_str)

lemma set_end_cue_start: "set_end p (cue_start s) = Inr (p\<lparr>end_time := start_time s\<rparr>)"
  by (simp add: set_end_def cue_start_def timestamp_from_string_str)

lemma set_start_cue_end: "set_start p (cue_end s) = Inr (p\<lparr>start_time := end_time s\<rparr>)"
  by (simp add: set_start_def cue_end_def timestamp_from_string_str)

lemma new_time_ms: "max (ts_to_secs t - 1 / 1000) 0 = of_nat (t - 1) / 1000"
proof (cases "t = 0")
  case True
  then show ?thesis by (simp add: ts_to_secs_ms)
next
  case False
  then have "(of_nat (t - 1) :: rat) = of_nat t - 1" by (simp add: of_nat_diff)
  moreover have "(1::rat) \<le> of_nat t" using False by (simp add: Suc_leI)
  ultimately show ?thesis by (simp add: ts_to_secs_ms max_def field_simps)
qed

lemma set_end_new_time:
  "set_end p (seconds_to_timestamp (max (ts_to_secs t - 1 / 1000) 0)) = Inr (p\<lparr>end_time := t - 1\<rparr>)"
  by (simp only: new_time_ms set_end_def timestamp_from_string_seconds) simp

lemma segment_seconds:
  "timestamp_to_seconds (cue_start c) = Inr (of_nat (start_time c) / 1000)"
  "timestamp_to_seconds (cue_end c) = Inr (of_nat (end_time c) / 1000)"
  by (simp_all only: cue_start_def cue_end_def timestamp_str_eq round_trip_ms)

section \<open>Lines and whitespace\<close>

lemma split_on_nonempty: "split_on sep s \<noteq> []"
  by (induction s) (auto split: list.splits)

lemma collapse_spaces_Nil: "collapse_spaces s = [] \<longleftrightarrow> s = []"
  by (induction s rule: collapse_spaces.induct) auto

lemma strip_Nil: "strip s = [] \<longleftrightarrow> \<not> visible s"
proof -
  have "strip s = [] \<longleftrightarrow> (\<forall>c\<in>set (rev (dropWhile is_space s)). is_space c)"
    by (simp only: strip_def rev_is_Nil_conv dropWhile_eq_Nil_conv)
  also have "\<dots> \<longleftrightarrow> (\<forall>c\<in>set (dropWhile is_space s). is_space c)" by simp
  also have "\<dots> \<longleftrightarrow> (\<forall>c\<in>set s. is_space c)"
  proof
    assume a: "\<forall>c\<in>set (dropWhile is_space s). is_space c"
    show "\<forall>c\<in>set s. is_space c"
    proof (cases "dropWhile is_space s")
      case Nil
      then show ?thesis by (simp add: dropWhile_eq_Nil_conv)
    next
      case (Cons x xs)
      then have "\<not> is_space x" using hd_dropWhile [of is_space s] by simp
      moreover have "is_space x" using a Cons by simp
      ultimately show ?thesis by simp
    qed
  next
    assume "\<forall>c\<in>set s. is_space c"
    then show "\<forall>c\<in>set (dropWhile is_space s). is_space c"
      using set_dropWhileD by fastforce
  qed
  finally show ?thesis by (simp add: visible_def)
qed

lemma visible_replace: "visible (replace_char (CHR 0x0A) (CHR '' '') s) \<longleftrightarrow> visible s"
  by (induction s) (auto simp: visible_def replace_char_def is_space_def)

lemma collapsed_text_Nil: "collapsed_text s = [] \<longleftrightarrow> \<not> visible s"
  by (simp add: collapsed_text_def collapse_spaces_Nil strip_Nil visible_replace)

lemma strip_ends:
  assumes "strip s \<noteq> []"
  shows "\<not> is_space (hd (strip s))" and "\<not> is_space (last (strip s))"
proof -
  let ?d = "dropWhile is_space s"
  let ?r = "dropWhile is_space (rev ?d)"
  have r: "?r \<noteq> []" using assms by (simp add: strip_def)
  then have "\<not> is_space (hd ?r)" by (rule hd_dropWhile)
  then show "\<not> is_space (last (strip s))" using r by (simp add: strip_def last_rev)
  have d: "?d \<noteq> []"
  proof
    assume "?d = []"
    then have "?r = []" by (simp only: rev.simps dropWhile.simps)
    then show False using r by simp
  qed
  then have nd: "\<not> is_space (hd ?d)" by (rule hd_dropWhile)
  have "rev ?d = rev (tl ?d) @ [hd ?d]" using d by (cases ?d) simp_all
  then have "?r = dropWhile is_space (rev (tl ?d) @ [hd ?d])" by simp
  also have "\<dots> = dropWhile is_space (rev (tl ?d)) @ [hd ?d] \<or> \<dots> = [hd ?d]"
    using nd by (simp add: dropWhile_append)
  finally have "last ?r = hd ?d" by auto
  then have "hd (strip s) = hd ?d" using r by (simp add: strip_def hd_rev)
  then show "\<not> is_space (hd (strip s))" using nd by simp
qed

lemma visible_strip: "strip s \<noteq> [] \<Longrightarrow> visible (strip s)"
  using strip_ends(1) [of s] by (cases "strip s") (auto simp: visible_def)

lemma join_Cons: "xs \<noteq> [] \<Longrightarrow> join sep (x # xs) = x @ sep @ join sep xs"
  by (cases xs) simp_all

lemma join_split_on: "join [sep] (split_on sep t) = t"
proof (induction t)
  case Nil
  then show ?case by simp
next
  case (Cons c cs)
  obtain w ws where s: "split_on sep cs = w # ws"
    using split_on_nonempty [of sep cs] by (cases "split_on sep cs") auto
  show ?case
  proof (cases "c = sep")
    case True
    then show ?thesis using Cons.IH s by simp
  next
    case False
    then show ?thesis using Cons.IH s by (cases ws) simp_all
  qed
qed

lemma split_on_single: "length (split_on sep t) = 1 \<Longrightarrow> split_on sep t = [t]"
proof -
  assume "length (split_on sep t) = 1"
  then obtain x where x: "split_on sep t = [x]"
    by (cases "split_on sep t") auto
  then have "join [sep] [x] = t" using join_split_on [of sep t] by simp
  then show ?thesis using x by simp
qed

lemma last_split_on_suffix: "\<exists>pre. t = pre @ last (split_on sep t)"
proof (induction t)
  case Nil
  then show ?case by simp
next
  case (Cons c cs)
  obtain w ws where s: "split_on sep cs = w # ws"
    using split_on_nonempty [of sep cs] by (cases "split_on sep cs") auto
  obtain pre where pre: "cs = pre @ last (split_on sep cs)" using Cons.IH by blast
  show ?case
  proof (cases "c = sep")
    case True
    then have "last (split_on sep (c # cs)) = last (split_on sep cs)" using s by simp
    then have "c # cs = (c # pre) @ last (split_on sep (c # cs))" using pre by simp
    then show ?thesis by blast
  next
    case False
    show ?thesis
    proof (cases ws)
      case Nil
      then have "split_on sep cs = [cs]" using s split_on_single [of sep cs] by simp
      then have "last (split_on sep (c # cs)) = c # cs" using False by simp
      then have "c # cs = [] @ last (split_on sep (c # cs))" by simp
      then show ?thesis by blast
    next
      case (Cons v vs)
      then have "last (split_on sep (c # cs)) = last (split_on sep cs)" using s False by simp
      then have "c # cs = (c # pre) @ last (split_on sep (c # cs))" using pre by simp
      then show ?thesis by blast
    qed
  qed
qed

lemma startswith_refl: "startswith s s"
  by (induction s) simp_all

lemma str_in_suffix: "str_in x (pre @ x)"
proof (induction pre)
  case Nil
  then show ?case by (cases x) (simp_all add: startswith_refl)
next
  case (Cons p ps)
  then show ?case by simp
qed

lemma str_in_last_line: "str_in (last (split_on sep t)) t"
proof -
  obtain pre where "t = pre @ last (split_on sep t)" using last_split_on_suffix by blast
  then show ?thesis using str_in_suffix [of "last (split_on sep t)" pre] by simp
qed

lemma last_split_on_Nil:
  "t \<noteq> [] \<Longrightarrow> last (split_on sep t) = [] \<Longrightarrow> last t = sep"
proof (induction t)
  case Nil
  then show ?case by simp
next
  case (Cons c cs)
  obtain v vs where s: "split_on sep cs = v # vs"
    using split_on_nonempty [of sep cs] by (cases "split_on sep cs") auto
  show ?case
  proof (cases "cs = []")
    case True
    then show ?thesis using Cons.prems by (auto split: if_splits)
  next
    case False
    have "last (split_on sep cs) = []"
      using Cons.prems(2) s by (cases vs) (auto split: if_splits)
    then have "last cs = sep" using Cons.IH False by simp
    then show ?thesis using False by simp
  qed
qed

lemma visible_last_line:
  assumes "t \<noteq> []" "\<not> is_space (last t)"
  shows "visible (last (split_on (CHR 0x0A) t))"
proof -
  let ?l = "last (split_on (CHR 0x0A) t)"
  obtain pre where pre: "t = pre @ ?l" using last_split_on_suffix by blast
  have ne: "?l \<noteq> []"
  proof
    assume "?l = []"
    then have "last t = CHR 0x0A" using assms(1) by (intro last_split_on_Nil)
    then show False using assms(2) by (simp add: is_space_def)
  qed
  then have "last t = last ?l" using pre by (metis last_appendR)
  then have "\<not> is_space (last ?l)" using assms(2) by simp
  then show ?thesis using ne by (auto simp: visible_def intro: last_in_set)
qed

lemma set_last_join: "xs \<noteq> [] \<Longrightarrow> set (last xs) \<subseteq> set (join sep xs)"
  by (induction sep xs rule: join.induct) auto

lemma visible_mono: "visible a \<Longrightarrow> set a \<subseteq> set b \<Longrightarrow> visible b"
  by (auto simp: visible_def)

section \<open>The merger step by step\<close>

text \<open>
  The strings that the merger assigns to \<open>start\<close> and \<open>end\<close> always denote a timestamp,
  so the end of an iteration never raises: it yields the pending cue after the overlap
  correction, unless \<open>singleword\<close> is set, and goes on with the cue after the order
  correction.
\<close>

lemma advance_eq:
  "advance singleword p s =
     Inr (if singleword then [] else [correct_overlap p s], correct_order s)"
  by (simp add: advance_def Let_def set_end_new_time set_end_cue_start set_start_cue_end
      ts_to_secs_le correct_overlap_def correct_order_def)

lemma dedupe_step_total: "\<exists>yielded p'. dedupe_step p s = Inr (yielded, p')"
  by (simp add: dedupe_step_def Let_def advance_eq set_end_cue_end)

lemma dedupe_loop_total: "\<exists>captions. dedupe_loop p ss = Inr captions"
proof (induction ss arbitrary: p)
  case Nil
  then show ?case by simp
next
  case (Cons s ss)
  obtain yielded p' where "dedupe_step p s = Inr (yielded, p')"
    using dedupe_step_total by blast
  moreover obtain rest where "dedupe_loop p' ss = Inr rest"
    using Cons.IH by blast
  ultimately show ?case by simp
qed

lemma dedupe_yt_captions_total: "\<exists>captions. dedupe_yt_captions subs = Inr captions"
proof (cases subs)
  case Nil
  then show ?thesis by (simp add: dedupe_yt_captions_def)
next
  case (Cons s ss)
  obtain captions where "dedupe_loop s ss = Inr captions"
    using dedupe_loop_total by blast
  then show ?thesis using Cons by (simp add: dedupe_yt_captions_def)
qed

lemmas merger_eval = dedupe_yt_captions_def dedupe_step_def short_duplicate_def advance_eq
  set_end_cue_end ts_to_secs_ms strip_def is_space_def correct_overlap_def correct_order_def Let_def

section \<open>Claims about the merger\<close>

text \<open>
  Claim C1 (short-duplicate rule). The claim lets the rule fire exactly when the cue
  lasts less than 0.15 seconds and its text is contained in the pending text. The
  condition of the source subtracts the end from the start. For the pending cue
  (0 s, 1 s, "hello world") and the incoming cue (1 s, 6 s, "hello"), which lasts five
  seconds, the condition of the source holds, and the merger extends the pending cue to
  6 s and drops the incoming cue.
\<close>

theorem short_duplicate_ignores_duration:
  "short_duplicate \<lparr>start_time = 0, end_time = 1000, text' = ''hello world''\<rparr>
                   \<lparr>start_time = 1000, end_time = 6000, text' = ''hello''\<rparr> \<and>
   \<not> (ts_to_secs 6000 - ts_to_secs 1000 < 15 / 100) \<and>
   dedupe_yt_captions [\<lparr>start_time = 0, end_time = 1000, text' = ''hello world''\<rparr>,
                       \<lparr>start_time = 1000, end_time = 6000, text' = ''hello''\<rparr>] =
     Inr [Some \<lparr>start_time = 0, end_time = 6000, text' = ''hello world''\<rparr>]"
  by (simp add: merger_eval)

text \<open>
  For a cue that does not start after it ends the duration plays no part: the condition
  of the source holds exactly when the text is contained in the pending text.
\<close>

lemma short_duplicate_well_formed:
  "start_time s \<le> end_time s \<Longrightarrow> short_duplicate p s = str_in (text' s) (text' p)"
  by (simp add: short_duplicate_def ts_to_secs_ms field_simps)

text \<open>
  Claim C2 (non-overlap invariant). The claim covers a later cue whose endpoints the
  order correction swaps. The source corrects the overlap against the start of the cue
  before it swaps. For the cues (0 s, 5 s, "a b c") and (4 s, 2 s, "d e f") the first is
  cut to end at 3.999 s, one millisecond before 4 s, and the second then becomes
  (2 s, 4 s): the first output cue ends after the second one starts.
\<close>

theorem overlap_after_order_correction:
  "dedupe_yt_captions [\<lparr>start_time = 0, end_time = 5000, text' = ''a b c''\<rparr>,
                       \<lparr>start_time = 4000, end_time = 2000, text' = ''d e f''\<rparr>] =
     Inr [Some \<lparr>start_time = 0, end_time = 3999, text' = ''a b c''\<rparr>,
          Some \<lparr>start_time = 2000, end_time = 4000, text' = ''d e f''\<rparr>] \<and>
   \<not> (ts_to_secs 3999 \<le> ts_to_secs 2000)"
  by (simp add: merger_eval)

text \<open>
  Without a swap the invariant holds on input in the order of the start times: when the
  start times of the input do not decrease and every cue after the first starts before it
  ends, the merger returns cues that do not overlap.
\<close>

lemma dedupe_step_well_formed:
  assumes "well_formed s"
  shows "(\<exists>p'. dedupe_step p s = Inr ([], p') \<and> start_time p' = start_time p) \<or>
         (\<exists>p'. dedupe_step p s = Inr ([], p') \<and> start_time p' = start_time s) \<or>
         (\<exists>q p'. dedupe_step p s = Inr ([q], p') \<and> start_time q = start_time p \<and>
                  end_time q \<le> start_time s \<and> start_time p' = start_time s)"
proof -
  have od: "\<And>t. correct_order (s\<lparr>text' := t\<rparr>) = s\<lparr>text' := t\<rparr>"
    using assms by (simp add: correct_order_def well_formed_def)
  have ov: "\<And>t. start_time (correct_overlap p (s\<lparr>text' := t\<rparr>)) = start_time p \<and>
                 end_time (correct_overlap p (s\<lparr>text' := t\<rparr>)) \<le> start_time s"
    by (simp add: correct_overlap_def)
  show ?thesis
    using ov by (simp add: dedupe_step_def Let_def advance_eq set_end_cue_end od)
qed

lemma dedupe_loop_non_overlapping:
  assumes "list_all well_formed ss" and "sorted (map start_time (p # ss))"
    and "lo \<le> start_time p"
  shows "\<exists>out. dedupe_loop p ss = Inr out \<and> non_overlapping out \<and> out \<noteq> [] \<and>
               lo \<le> start_time (hd out)"
  using assms
proof (induction ss arbitrary: p lo)
  case Nil
  then show ?case by simp
next
  case (Cons s ss)
  have wf: "well_formed s" and wfs: "list_all well_formed ss"
    using Cons.prems(1) by simp_all
  have ps: "start_time p \<le> start_time s" and srt: "sorted (map start_time (s # ss))"
    using Cons.prems(2) by simp_all
  consider
      (keep) p' where "dedupe_step p s = Inr ([], p')" "start_time p' = start_time p"
    | (absorb) p' where "dedupe_step p s = Inr ([], p')" "start_time p' = start_time s"
    | (emit) q p' where "dedupe_step p s = Inr ([q], p')" "start_time q = start_time p"
        "end_time q \<le> start_time s" "start_time p' = start_time s"
    using dedupe_step_well_formed [OF wf, of p] by blast
  then show ?case
  proof cases
    case keep
    have "sorted (map start_time (p' # ss))"
      using Cons.prems(2) keep(2) by simp
    moreover have "lo \<le> start_time p'" using Cons.prems(3) keep(2) by simp
    ultimately obtain out where "dedupe_loop p' ss = Inr out" "non_overlapping out"
      "out \<noteq> []" "lo \<le> start_time (hd out)"
      using Cons.IH [OF wfs] by blast
    then show ?thesis using keep(1) by simp
  next
    case absorb
    have "sorted (map start_time (p' # ss))"
      using srt absorb(2) by simp
    moreover have "lo \<le> start_time p'" using Cons.prems(3) ps absorb(2) by simp
    ultimately obtain out where "dedupe_loop p' ss = Inr out" "non_overlapping out"
      "out \<noteq> []" "lo \<le> start_time (hd out)"
      using Cons.IH [OF wfs] by blast
    then show ?thesis using absorb(1) by simp
  next
    case emit
    have "sorted (map start_time (p' # ss))"
      using srt emit(4) by simp
    moreover have "end_time q \<le> start_time p'" using emit(3,4) by simp
    ultimately obtain out where out: "dedupe_loop p' ss = Inr out" "non_overlapping out"
      "out \<noteq> []" "end_time q \<le> start_time (hd out)"
      using Cons.IH [OF wfs] by blast
    then obtain b bs where b: "out = b # bs" by (cases out) auto
    have "non_overlapping (q # out)"
      using out(2,4) b by (simp add: ts_to_secs_le)
    moreover have "lo \<le> start_time q" using Cons.prems(3) emit(2) by simp
    ultimately show ?thesis using emit(1) out(1) by simp
  qed
qed

lemma non_overlap_when_well_formed:
  assumes "list_all well_formed subs" and "sorted (map start_time (c # subs))"
  shows "\<exists>out. dedupe_yt_captions (c # subs) = Inr (map Some out) \<and> non_overlapping out"
proof -
  obtain out where "dedupe_loop c subs = Inr out" "non_overlapping out"
    using dedupe_loop_non_overlapping [OF assms, of 0] by auto
  then show ?thesis by (auto simp: dedupe_yt_captions_def)
qed

text \<open>
  Claim C3 (concrete scenario), as stated: the merger turns the cues (0.0, 0.1, "hello")
  and (0.05, 2.0, "hello world") into the single cue (0.0, 2.0, "hello world"). It does
  not.
\<close>

theorem hello_scenario_counterexample:
  "dedupe_yt_captions [\<lparr>start_time = 0, end_time = 100, text' = ''hello''\<rparr>,
                       \<lparr>start_time = 50, end_time = 2000, text' = ''hello world''\<rparr>] \<noteq>
     Inr [Some \<lparr>start_time = 0, end_time = 2000, text' = ''hello world''\<rparr>]"
  by (simp add: merger_eval)

text \<open>
  Claim C3, amended. The second cue has two tokens and does not begin with the last line
  of the first, so it is a short annotation: the merger extends the first cue to 2.0 s
  and appends a space and the text of the second. The output is the single cue
  (0.0, 2.0, "hello hello world").
\<close>

theorem hello_scenario:
  "dedupe_yt_captions [\<lparr>start_time = 0, end_time = 100, text' = ''hello''\<rparr>,
                       \<lparr>start_time = 50, end_time = 2000, text' = ''hello world''\<rparr>] =
     Inr [Some \<lparr>start_time = 0, end_time = 2000, text' = ''hello hello world''\<rparr>]"
  by (simp add: merger_eval)

text \<open>
  Claim C4 (the merger emits no empty text). The first cue becomes the pending cue before
  the merger strips a text or skips an empty one, so a first cue whose text is a single
  space is emitted as it is, and its segment has the empty text. A later cue can lose its
  whole text to the line-continuation rule: after (0 s, 1 s, "x y / line") the cue
  (5 s, 1 s, "line") is emitted with the empty text.
\<close>

theorem empty_text_emitted:
  "dedupe_yt_captions [\<lparr>start_time = 0, end_time = 1000, text' = '' ''\<rparr>] =
     Inr [Some \<lparr>start_time = 0, end_time = 1000, text' = '' ''\<rparr>] \<and>
   parse_captions (\<lambda>content. Inr [\<lparr>start_time = 0, end_time = 1000, text' = '' ''\<rparr>])
       ''vtt'' content =
     Inr [\<lparr>seg_start = ''00:00:00.000'', seg_end = ''00:00:01.000'', start_sec = 0,
           end_sec = 1, separator = [], seg_text = []\<rparr>] \<and>
   dedupe_yt_captions [\<lparr>start_time = 0, end_time = 1000, text' = ''x y\<newline>line''\<rparr>,
                       \<lparr>start_time = 5000, end_time = 1000, text' = ''line''\<rparr>] =
     Inr [Some \<lparr>start_time = 0, end_time = 1000, text' = ''x y\<newline>line''\<rparr>,
          Some \<lparr>start_time = 1000, end_time = 5000, text' = []\<rparr>]"
proof -
  have "parse_captions (\<lambda>content. Inr [\<lparr>start_time = 0, end_time = 1000, text' = '' ''\<rparr>])
       ''vtt'' content =
     Inr [\<lparr>seg_start = ''00:00:00.000'', seg_end = ''00:00:01.000'', start_sec = 0,
           end_sec = 1, separator = [], seg_text = []\<rparr>]"
    apply (simp add: parse_captions_def merger_eval segment_seconds replace_char_def)
    apply (simp add: cue_start_def cue_end_def timestamp_str_def zfill_def)
    apply (simp add: str_nat.simps digit_char_def decimal_digits_def numeral_2_eq_2 numeral_3_eq_3)
    done
  then show ?thesis by (simp add: merger_eval)
qed

text \<open>
  When the text of the first cue has a character that is not whitespace and every later
  cue starts before it ends, every cue of the output has a segment text that is not
  empty.
\<close>

lemma text_correct_order: "text' (correct_order x) = text' x"
  by (simp add: correct_order_def)

lemma text_correct_overlap: "text' (correct_overlap p x) = text' p"
  by (simp add: correct_overlap_def)

lemma well_formed_short: "well_formed s \<Longrightarrow> ts_to_secs (start_time s) - ts_to_secs (end_time s) < 15 / 100"
  by (simp add: well_formed_def ts_to_secs_ms field_simps)

lemma remaining_lines_visible:
  assumes ne: "strip u \<noteq> []"
    and nin: "\<not> str_in (strip u) v"
    and eq: "hd (split_on (CHR 0x0A) (strip u)) = last (split_on (CHR 0x0A) v)"
  shows "visible (join [CHR 0x0A] (tl (split_on (CHR 0x0A) (strip u))))"
proof -
  let ?t = "strip u"
  let ?cl = "split_on (CHR 0x0A) ?t"
  obtain w ws where cl: "?cl = w # ws"
    using split_on_nonempty [of "CHR 0x0A" ?t] by (cases ?cl) auto
  have "ws \<noteq> []"
  proof
    assume "ws = []"
    then have "?cl = [?t]" using cl split_on_single [of "CHR 0x0A" ?t] by simp
    then have "?t = last (split_on (CHR 0x0A) v)" using eq by simp
    then have "str_in ?t v" using str_in_last_line [of "CHR 0x0A" v] by simp
    then show False using nin by simp
  qed
  then have l: "last ws = last ?cl" using cl by simp
  have "visible (last ?cl)"
    using ne strip_ends(2) [OF ne] by (rule visible_last_line)
  then have "visible (last ws)" using l by simp
  moreover have "set (last ws) \<subseteq> set (join [CHR 0x0A] ws)"
    using \<open>ws \<noteq> []\<close> by (rule set_last_join)
  ultimately have "visible (join [CHR 0x0A] ws)" by (rule visible_mono)
  then show ?thesis using cl by simp
qed

lemma single_line_visible:
  assumes "visible v" "length (split_on (CHR 0x0A) v) = 1"
  shows "visible (last (split_on (CHR 0x0A) v) @ rest)"
proof -
  have "split_on (CHR 0x0A) v = [v]" using assms(2) by (rule split_on_single)
  then show ?thesis using assms(1) by (auto simp: visible_def)
qed

lemma dedupe_step_visible:
  assumes wf: "well_formed s" and vp: "visible (text' p)"
    and st: "dedupe_step p s = Inr (ys, p')"
  shows "visible (text' p') \<and> (\<forall>q\<in>set ys. visible (text' q))"
proof -
  let ?t = "strip (text' s)"
  let ?s = "s\<lparr>text' := ?t\<rparr>"
  let ?cl = "split_on (CHR 0x0A) ?t"
  let ?ll = "split_on (CHR 0x0A) (text' p)"
  show ?thesis
  proof (cases "?t = []")
    case True
    then show ?thesis using st vp by (simp add: dedupe_step_def)
  next
    case ne: False
    show ?thesis
    proof (cases "str_in ?t (text' p)")
      case True
      then have "short_duplicate p ?s"
        using well_formed_short [OF wf] by (simp add: short_duplicate_def)
      then show ?thesis using st vp ne by (auto simp: dedupe_step_def set_end_cue_end)
    next
      case nin: False
      then have nsd: "\<not> short_duplicate p ?s" by (simp add: short_duplicate_def)
      show ?thesis
      proof (cases "hd ?cl = last ?ll")
        case eq: True
        have rem: "visible (join [CHR 0x0A] (tl ?cl))"
          using ne nin eq by (rule remaining_lines_visible)
        show ?thesis
        proof (cases "length ?ll = 1 \<and> length (split_on CHR '' '' (hd ?ll)) < 2 \<and> length (hd ?ll) > 2")
          case True
          then have "visible (last ?ll @ '' '' @ join [CHR 0x0A] (tl ?cl))"
            using vp by (intro single_line_visible) simp_all
          then show ?thesis using st ne nsd eq True
            by (auto simp: dedupe_step_def Let_def advance_eq text_correct_order)
        next
          case False
          then show ?thesis using st ne nsd eq rem vp
            by (auto simp: dedupe_step_def Let_def advance_eq text_correct_order
                text_correct_overlap split: if_splits)
        qed
      next
        case neq: False
        have vt: "visible ?t" using ne by (rule visible_strip)
        have va: "\<And>x. visible (text' p @ x)" using vp by (auto simp: visible_def)
        show ?thesis using st ne nsd neq vt va vp
          by (auto simp: dedupe_step_def Let_def advance_eq text_correct_order
              text_correct_overlap set_end_cue_end split: if_splits)
      qed
    qed
  qed
qed

lemma dedupe_loop_visible:
  assumes "list_all well_formed ss" and "visible (text' p)"
  shows "\<exists>out. dedupe_loop p ss = Inr out \<and> list_all (\<lambda>q. visible (text' q)) out"
  using assms
proof (induction ss arbitrary: p)
  case Nil
  then show ?case by simp
next
  case (Cons s ss)
  obtain ys p' where st: "dedupe_step p s = Inr (ys, p')"
    using dedupe_step_total by blast
  have wf: "well_formed s" and wfs: "list_all well_formed ss"
    using Cons.prems(1) by simp_all
  have v: "visible (text' p')" "\<forall>q\<in>set ys. visible (text' q)"
    using dedupe_step_visible [OF wf Cons.prems(2) st] by simp_all
  obtain out where "dedupe_loop p' ss = Inr out" "list_all (\<lambda>q. visible (text' q)) out"
    using Cons.IH [OF wfs v(1)] by blast
  then show ?case using st v(2) by (auto simp: list_all_iff)
qed

lemma no_empty_text_when_well_formed:
  assumes "list_all well_formed subs" and "collapsed_text (text' c) \<noteq> []"
  shows "\<exists>out. dedupe_yt_captions (c # subs) = Inr (map Some out) \<and>
           list_all (\<lambda>q. collapsed_text (text' q) \<noteq> []) out"
proof -
  have "visible (text' c)" using assms(2) by (simp add: collapsed_text_Nil)
  then obtain out where "dedupe_loop c subs = Inr out" "list_all (\<lambda>q. visible (text' q)) out"
    using dedupe_loop_visible [OF assms(1)] by blast
  then show ?thesis by (auto simp: dedupe_yt_captions_def collapsed_text_Nil)
qed






section \<open>Claims about the segmenter\<close>

text \<open>
  Claim C6 (empty input). On zero cues the loop of the merger never runs and its final
  \<open>yield\<close> gives the initial \<open>None\<close>; the segmenter then reads the text of \<open>None\<close>, which
  raises AttributeError, whatever the content is. On cues whose stripped texts are all
  empty the first cue is emitted all the same, and the segmenter returns one segment with
  the empty text, not the empty sequence.
\<close>

theorem empty_input_raises:
  "dedupe_yt_captions [] = Inr [None] \<and>
   parse_captions (\<lambda>content. Inr []) ''vtt'' content = Inl AttributeError \<and>
   parse_captions (\<lambda>content. Inr [\<lparr>start_time = 0, end_time = 1000, text' = '' ''\<rparr>,
                                    \<lparr>start_time = 1000, end_time = 2000, text' = ''  ''\<rparr>])
       ''vtt'' content =
     Inr [\<lparr>seg_start = ''00:00:00.000'', seg_end = ''00:00:01.000'', start_sec = 0,
           end_sec = 1, separator = [], seg_text = []\<rparr>]"
proof -
  have "parse_captions (\<lambda>content. Inr [\<lparr>start_time = 0, end_time = 1000, text' = '' ''\<rparr>,
                                    \<lparr>start_time = 1000, end_time = 2000, text' = ''  ''\<rparr>])
       ''vtt'' content =
     Inr [\<lparr>seg_start = ''00:00:00.000'', seg_end = ''00:00:01.000'', start_sec = 0,
           end_sec = 1, separator = [], seg_text = []\<rparr>]"
    apply (simp add: parse_captions_def merger_eval segment_seconds replace_char_def)
    apply (simp add: cue_start_def cue_end_def timestamp_str_def zfill_def)
    apply (simp add: str_nat.simps digit_char_def decimal_digits_def numeral_2_eq_2 numeral_3_eq_3)
    done
  then show ?thesis by (simp add: dedupe_yt_captions_def parse_captions_def)
qed

text \<open>
  The empty cue sequence is the one input of the segmenter that raises: when the parser
  of the content returns no cue, \<open>parse_captions\<close> raises AttributeError, and when it
  returns at least one cue, \<open>parse_captions\<close> returns segments.
\<close>

lemma segments_loop_total:
  "\<exists>segs. segments_loop idx segments (map Some caps) = Inr segs"
  by (induction caps arbitrary: idx segments) (simp_all add: segment_seconds Let_def)

lemma parse_captions_empty:
  "from_string content = Inr [] \<Longrightarrow> parse_captions from_string ''vtt'' content = Inl AttributeError"
  by (simp add: parse_captions_def dedupe_yt_captions_def)

lemma parse_captions_nonempty:
  assumes "from_string content = Inr (c # cs)"
  shows "\<exists>segs. parse_captions from_string ''vtt'' content = Inr segs"
proof -
  obtain captions where "dedupe_loop c cs = Inr captions"
    using dedupe_loop_total by blast
  then have "dedupe_yt_captions (c # cs) = Inr (map Some captions)"
    by (simp add: dedupe_yt_captions_def)
  then show ?thesis
    using assms segments_loop_total [of 0 "[]" captions] by (simp add: parse_captions_def)
qed

text \<open>
  Claim C10 (formats other than vtt). For every format argument other than \<open>vtt\<close>,
  \<open>parse_captions\<close> raises ValueError, whatever the parser of the content and the content
  are: nothing of the content is read. The track selector does return tracks in other
  formats: a manual \<open>srt\<close> track and an automatic \<open>ttml\<close> track are selected when they are
  the only usable ones.
\<close>

theorem parse_captions_rejects_non_vtt:
  "(e \<noteq> ''vtt'' \<longrightarrow>
      parse_captions from_string e content = Inl (ValueError (''Unsupported caption format: '' @ e))) \<and>
   get_captions_by_priority
     \<lparr>subtitles = Some [(''en'', [\<lparr>name = Some ''English'', protocol = None, ext = Some ''srt'', url = ''u''\<rparr>])],
      automatic_captions = None\<rparr> =
     Some \<lparr>name = Some ''English'', protocol = None, ext = Some ''srt'', url = ''u''\<rparr> \<and>
   get_captions_by_priority
     \<lparr>subtitles = None,
      automatic_captions = Some [(''en'', [\<lparr>name = Some ''English'', protocol = None, ext = Some ''ttml'', url = ''u''\<rparr>])]\<rparr> =
     Some \<lparr>name = Some ''English'', protocol = None, ext = Some ''ttml'', url = ''u''\<rparr>"
  by (simp add: parse_captions_def get_captions_by_priority_def select_caption_track_def
      truthy_catalog_def truthy_tracks_def subtitle_priorities_def auto_caption_priorities_def
      format_priorities_def usable_def)

theorem parse_captions_rejects_non_vtt_witness:
  "parse_captions (\<lambda>content. Inr []) ''srt'' ''WEBVTT'' =
     Inl (ValueError ''Unsupported caption format: srt'')"
  using parse_captions_rejects_non_vtt [of "''srt''" "\<lambda>content. Inr []" "''WEBVTT''"] by simp

section \<open>Claims about the track selector\<close>

lemma first_format_None:
  "first_format fmts tracks = None \<longleftrightarrow> (\<forall>t\<in>set tracks. \<not> (usable t \<and> ext t \<in> Some ` set fmts))"
proof (induction fmts)
  case Nil
  then show ?case by simp
next
  case (Cons fmt fmts)
  show ?case
  proof (cases "find (\<lambda>t. usable t \<and> ext t = Some fmt) tracks")
    case None
    then have "\<forall>t\<in>set tracks. \<not> (usable t \<and> ext t = Some fmt)"
      by (simp add: find_None_iff)
    then show ?thesis using None Cons.IH by auto
  next
    case (Some t)
    then have "t \<in> set tracks \<and> usable t \<and> ext t = Some fmt"
      by (auto simp: find_Some_iff)
    then show ?thesis using Some by auto
  qed
qed

text \<open>
  Claim C5 (error distinction), as stated: the selector's outcome when a language matches
  but no track has a usable format can be told apart from its outcome when no language
  matches. A video whose only track is a manual English track in \<open>json3\<close> format and a
  video with no captions at all get the same result.
\<close>

theorem no_usable_format_counterexample:
  "select_caption_track
     \<lparr>subtitles = Some [(''en'', [\<lparr>name = Some ''English'', protocol = None, ext = Some ''json3'', url = ''u''\<rparr>])],
      automatic_captions = None\<rparr> =
     Some [\<lparr>name = Some ''English'', protocol = None, ext = Some ''json3'', url = ''u''\<rparr>] \<and>
   select_caption_track \<lparr>subtitles = None, automatic_captions = None\<rparr> = None \<and>
   get_captions_by_priority
     \<lparr>subtitles = Some [(''en'', [\<lparr>name = Some ''English'', protocol = None, ext = Some ''json3'', url = ''u''\<rparr>])],
      automatic_captions = None\<rparr> =
   get_captions_by_priority \<lparr>subtitles = None, automatic_captions = None\<rparr>"
  by (simp add: get_captions_by_priority_def select_caption_track_def truthy_catalog_def
      truthy_tracks_def subtitle_priorities_def format_priorities_def usable_def)

text \<open>
  Claim C5, amended. When a language's track list is found but no track in it is usable
  in one of the formats \<open>vtt\<close>, \<open>srt\<close>, \<open>ttml\<close>, the selector returns \<open>None\<close>, and that is
  the value it returns when no language matches: the result does not tell the two
  outcomes apart.
\<close>

theorem no_usable_format_is_none:
  assumes "select_caption_track i = Some tracks"
    and "\<forall>t\<in>set tracks. \<not> (usable t \<and> ext t \<in> Some ` set format_priorities)"
    and "select_caption_track j = None"
  shows "get_captions_by_priority i = None \<and>
         get_captions_by_priority i = get_captions_by_priority j"
proof -
  have "first_format format_priorities tracks = None"
    using assms(2) by (simp only: first_format_None)
  then have "get_captions_by_priority i = None"
    using assms(1) by (cases tracks) (simp_all add: get_captions_by_priority_def truthy_tracks_def)
  moreover have "get_captions_by_priority j = None"
    using assms(3) by (simp add: get_captions_by_priority_def truthy_tracks_def)
  ultimately show ?thesis by simp
qed

theorem no_usable_format_is_none_witness:
  "get_captions_by_priority
     \<lparr>subtitles = Some [(''en'', [\<lparr>name = Some ''English'', protocol = None, ext = Some ''json3'', url = ''u''\<rparr>])],
      automatic_captions = None\<rparr> = None \<and>
   get_captions_by_priority \<lparr>subtitles = None, automatic_captions = None\<rparr> = None"
proof -
  let ?t = "\<lparr>name = Some ''English'', protocol = None, ext = Some ''json3'', url = ''u''\<rparr>"
  let ?i = "\<lparr>subtitles = Some [(''en'', [?t])], automatic_captions = None\<rparr>"
  let ?j = "\<lparr>subtitles = None, automatic_captions = None\<rparr>"
  have 1: "select_caption_track ?i = Some [?t]"
    by (simp add: select_caption_track_def truthy_catalog_def truthy_tracks_def subtitle_priorities_def)
  have 2: "\<forall>t\<in>set [?t]. \<not> (usable t \<and> ext t \<in> Some ` set format_priorities)"
    by (simp add: format_priorities_def)
  have 3: "select_caption_track ?j = None"
    by (simp add: select_caption_track_def truthy_catalog_def truthy_tracks_def)
  show ?thesis using no_usable_format_is_none [OF 1 2 3] by auto
qed

section \<open>Claims about the downstream projection\<close>






end
